theory Spec2Isabelle
  imports Main
begin

section \<open>Failures and Python indexing\<close>

text \<open>
  A call of the library either returns or ends in a failure. The source raises no
  exception of its own in \<open>load_calendar\<close> and \<open>_categorize\<close>; the failures that
  can occur there are the \<open>IndexError\<close> of an array access out of range and the
  \<open>KeyError\<close> of a column selection that names a missing column. \<open>InvalidRange\<close>
  is the kind the specification names for a range whose start lies after its end; it is
  listed here so that statements can speak about it, and no equation below produces it.
\<close>

datatype error = IndexError | KeyError | InvalidRange

text \<open>
  Indexing a sequence of length \<open>n\<close> with an integer: positions \<open>0 .. n-1\<close> are
  themselves, \<open>-n .. -1\<close> count from the end, everything else raises.
\<close>

definition py_index :: "nat \<Rightarrow> int \<Rightarrow> error + nat" where
  "py_index n i =
     (if 0 \<le> i \<and> i < int n then Inr (nat i)
      else if - int n \<le> i \<and> i < 0 then Inr (nat (int n + i))
      else Inl IndexError)"

definition getitem :: "'a list \<Rightarrow> int \<Rightarrow> error + 'a" where
  "getitem xs i = (case py_index (length xs) i of Inl e \<Rightarrow> Inl e | Inr p \<Rightarrow> Inr (xs ! p))"

definition setitem :: "'a list \<Rightarrow> int \<Rightarrow> 'a \<Rightarrow> error + 'a list" where
  "setitem xs i v = (case py_index (length xs) i of Inl e \<Rightarrow> Inl e | Inr p \<Rightarrow> Inr (xs[p := v]))"

text \<open>A \<open>for\<close> loop over a list of index values whose body may raise.\<close>

fun for_loop :: "'i list \<Rightarrow> ('i \<Rightarrow> 's \<Rightarrow> error + 's) \<Rightarrow> 's \<Rightarrow> error + 's" where
  "for_loop [] body s = Inr s"
| "for_loop (k # ks) body s =
     (case body k s of Inl e \<Rightarrow> Inl e | Inr s' \<Rightarrow> for_loop ks body s')"

section \<open>Dates, weekdays and the input column\<close>

text \<open>
  A date is its proleptic Gregorian ordinal (\<open>datetime.date.toordinal\<close>: day 1 is
  0001-01-01, a Monday), so consecutive calendar days, leap days included, are
  consecutive integers. \<open>weekday\<close> is Python's: Monday is 0, Saturday 5, Sunday 6.
\<close>

type_synonym date = int

definition weekday :: "date \<Rightarrow> int" where
  "weekday d = (d + 6) mod 7"

text \<open>
  The column handed to \<open>_categorize\<close> is a series indexed by date; a cell is a number
  or missing (\<open>NaN\<close>, here \<open>None\<close>).
\<close>

type_synonym series = "(date \<times> int option) list"

definition fillna :: "int \<Rightarrow> int option \<Rightarrow> int" where
  "fillna d x = (case x of None \<Rightarrow> d | Some v \<Rightarrow> v)"

text \<open>The default label of a day (\<open>type\<close>), from its weekday.\<close>

definition day_label :: "int \<Rightarrow> string" where
  "day_label wd =
     (if wd = 6 then ''Sunday'' else if wd = 5 then ''Saturday''
      else if wd = 4 then ''Friday'' else ''others'')"

text \<open>The column \<open>tmp\<close>: 1 on a Saturday or Sunday, plus the filled flag.\<close>

definition weekend_bump :: "int \<Rightarrow> int" where
  "weekend_bump wd = (if wd = 5 \<or> wd = 6 then 1 else 0)"

definition weights :: "series \<Rightarrow> int list" where
  "weights column = map (\<lambda>(d, x). weekend_bump (weekday d) + fillna 0 x) column"

definition day_labels :: "series \<Rightarrow> string list" where
  "day_labels column = map (\<lambda>(d, x). day_label (weekday d)) column"

section \<open>The two sweeps of \<open>_categorize\<close>\<close>

text \<open>
  \<open>MetroHolidays._categorize\<close> of \<open>src/metroholidays/_metroholidays.py\<close>, lines 88 to
  129; \<open>holidaysapi.py\<close> and \<open>__init__.py\<close> hold the same function.

  First sweep (lines 105 to 114). \<open>counts\<close> is mutated in place; the state of the loop is the array and
  the running counter \<open>last\<close> (written \<open>lst\<close>). The index \<open>k\<close> runs over
  \<open>range(1, len(counts))\<close>,
  so \<open>counts[k]\<close> is always in range; the back-fill writes \<open>counts[k - j]\<close> for
  \<open>j\<close> in \<open>range(1, last + 1)\<close>, an index that may be negative.
\<close>

definition backfill :: "int list \<Rightarrow> int \<Rightarrow> int \<Rightarrow> error + int list" where
  "backfill counts k lst = for_loop [1..lst] (\<lambda>j cs. setitem cs (k - j) lst) counts"

fun sweep1_body :: "nat \<Rightarrow> int list \<times> int \<Rightarrow> error + int list \<times> int" where
  "sweep1_body k (counts, lst) =
     (let v = counts ! k in
      if v > 0 then Inr (counts[k := lst + 1], lst + 1)
      else (case backfill counts (int k) lst of
              Inl e \<Rightarrow> Inl e
            | Inr counts' \<Rightarrow> Inr (counts', 0)))"

definition first_sweep :: "int list \<Rightarrow> error + int list" where
  "first_sweep counts =
     (case getitem counts 0 of
        Inl e \<Rightarrow> Inl e
      | Inr c0 \<Rightarrow>
          (case for_loop [1..<length counts] sweep1_body (counts, c0) of
             Inl e \<Rightarrow> Inl e
           | Inr (counts', lst) \<Rightarrow> Inr counts'))"

text \<open>
  Second sweep (lines 116 to 127). It reads the propagated \<open>counts\<close> and writes \<open>days\<close> at \<open>k - 1\<close>
  and \<open>k\<close> with \<open>1 \<le> k < len(counts)\<close>, both in range (\<open>days\<close> has the length of
  \<open>counts\<close>).
\<close>

definition sweep2_body :: "int list \<Rightarrow> int \<Rightarrow> nat \<Rightarrow> string list \<times> int \<Rightarrow> string list \<times> int" where
  "sweep2_body counts min_days k = (\<lambda>(days, lst).
     (let v = counts ! k;
          days' =
            (if v = 0 then (if lst \<ge> min_days then days[k - 1 := ''last_day''] else days)
             else if v \<ge> min_days then
               (if lst = 0 then days[k - 1 := ''first_day''] else days)[k := ''middle_days'']
             else days)
      in (days', v)))"

definition second_sweep :: "int list \<Rightarrow> string list \<Rightarrow> int \<Rightarrow> error + string list" where
  "second_sweep counts days min_days =
     (case getitem counts 0 of
        Inl e \<Rightarrow> Inl e
      | Inr c0 \<Rightarrow> Inr (fst (fold (sweep2_body counts min_days) [1..<length counts] (days, c0))))"

definition categorize :: "series \<Rightarrow> int \<Rightarrow> error + string list" where
  "categorize column min_days =
     (case first_sweep (weights column) of
        Inl e \<Rightarrow> Inl e
      | Inr counts \<Rightarrow> second_sweep counts (day_labels column) min_days)"

section \<open>The calendar\<close>

text \<open>
  \<open>MetroHolidays.load_calendar\<close> of \<open>src/metroholidays/_metroholidays.py\<close>, lines 41 to
  86. It starts from the table that \<open>load_holidays\<close> fetched: one row per
  holiday record and date. Of its columns the calendar reads \<open>country_code\<close>,
  \<open>day_off\<close> (a boolean; as a number \<open>True\<close> is 1) and \<open>date\<close>. The fetch itself is
  the collaborator's; its result is a parameter here. The requested country codes are
  taken to be distinct: a repeated column label is not what the library is called with.
\<close>

record holiday_row =
  country_code :: string
  day_off :: bool
  date :: date















section \<open>Reference descriptions\<close>

text \<open>
  The boundary-labeling rule in the words of the specification (section 4.2, step 3):
  maintain \<open>last = weight[0]\<close>; for \<open>i\<close> from 1 to \<open>n-1\<close>, with
  \<open>v = weight[i]\<close>: if \<open>v == 0\<close> and \<open>last >= min_days\<close>, mark
  \<open>label[i-1] = last_day\<close>; if \<open>v >= min_days\<close>: if \<open>last == 0\<close>, mark
  \<open>label[i-1] = first_day\<close>; always mark \<open>label[i] = middle_days\<close>. After each step
  set \<open>last = v\<close>. The two tests are independent here, where the source chains them
  with \<open>elif\<close>.
\<close>

definition spec_label_step :: "int list \<Rightarrow> int \<Rightarrow> nat \<Rightarrow> string list \<times> int \<Rightarrow> string list \<times> int" where
  "spec_label_step weight min_days i = (\<lambda>(label, lst).
     (let v = weight ! i;
          label1 = (if v = 0 \<and> lst \<ge> min_days then label[i - 1 := ''last_day''] else label);
          label2 = (if v \<ge> min_days
                    then (if lst = 0 then label1[i - 1 := ''first_day''] else label1)[i := ''middle_days'']
                    else label1)
      in (label2, v)))"

definition spec_boundary_labeling :: "int list \<Rightarrow> string list \<Rightarrow> int \<Rightarrow> string list" where
  "spec_boundary_labeling weight label min_days =
     fst (fold (spec_label_step weight min_days) [1..<length weight] (label, weight ! 0))"

text \<open>
  The result of run-length propagation as the specification describes it (section 4.2,
  step 2 with its edge case), run by run. Going through the weights
  with the number \<open>r\<close> of nonzero days immediately before the current one: a nonzero
  day of a stretch that a later zero-weight day closes holds the total length of its
  stretch; a nonzero day of a stretch still open at the end holds its position in the
  stretch; any other day keeps its weight.
\<close>

definition pos_prefix :: "int list \<Rightarrow> nat" where
  "pos_prefix xs = length (takeWhile (\<lambda>x. 0 < x) xs)"

definition closes :: "int list \<Rightarrow> bool" where
  "closes xs = (dropWhile (\<lambda>x. 0 < x) xs \<noteq> [])"

primrec fill_from :: "nat \<Rightarrow> int list \<Rightarrow> int list" where
  "fill_from r [] = []"
| "fill_from r (x # xs) =
     (if 0 < x
      then (if closes xs then int (Suc r + pos_prefix xs) else int (Suc r)) # fill_from (Suc r) xs
      else x # fill_from 0 xs)"

definition spec_run_fill :: "int list \<Rightarrow> int list" where
  "spec_run_fill ws = fill_from 0 ws"



text \<open>
  The label a day ends with, read off the propagated counts: the write of iteration
  \<open>i + 1\<close> (\<open>last_day\<close> or \<open>first_day\<close>, one index behind) comes after the write of
  iteration \<open>i\<close> (\<open>middle_days\<close>) and so wins.
\<close>

definition partial_label :: "int list \<Rightarrow> string list \<Rightarrow> int \<Rightarrow> nat \<Rightarrow> string" where
  "partial_label counts days m i =
     (if 1 \<le> i \<and> counts ! i \<noteq> 0 \<and> m \<le> counts ! i then ''middle_days'' else days ! i)"

definition final_label :: "int list \<Rightarrow> string list \<Rightarrow> int \<Rightarrow> nat \<Rightarrow> string" where
  "final_label counts days m i =
     (if Suc i < length counts \<and> counts ! Suc i = 0 \<and> m \<le> counts ! i then ''last_day''
      else if Suc i < length counts \<and> counts ! Suc i \<noteq> 0 \<and> m \<le> counts ! Suc i \<and> counts ! i = 0
        then ''first_day''
      else partial_label counts days m i)"






section \<open>Inputs\<close>

text \<open>
  The contract of the labeler: every cell of the column is a 0/1 flag once filled. The
  columns that \<open>load_calendar\<close> builds are of this kind.
\<close>

definition flags01 :: "series \<Rightarrow> bool" where
  "flags01 column = list_all (\<lambda>(d, x). fillna 0 x = 0 \<or> fillna 0 x = 1) column"

text \<open>Seven consecutive days from \<open>d\<close> with the flags \<open>[0,0,1,1,1,0,0]\<close> (Scenario A).\<close>

definition scenario_a :: "date \<Rightarrow> series" where
  "scenario_a d =
     [(d, Some 0), (d + 1, Some 0), (d + 2, Some 1), (d + 3, Some 1), (d + 4, Some 1),
      (d + 5, Some 0), (d + 6, Some 0)]"

text \<open>
  Concrete columns. 738520 is Saturday 2022-12-31, 738521 Sunday 2023-01-01 and 738522
  Monday 2023-01-02.
\<close>

definition sunday_holiday :: series where
  "sunday_holiday = [(738521, Some 1), (738522, Some 0)]"

definition saturday_holiday :: series where
  "saturday_holiday = [(738520, Some 1), (738521, Some 0), (738522, Some 0)]"



section \<open>Loops, indexing and the first sweep\<close>

lemma for_loop_append:
  "for_loop (ks @ ks') body s =
     (case for_loop ks body s of Inl e \<Rightarrow> Inl e | Inr s' \<Rightarrow> for_loop ks' body s')"
  by (induction ks arbitrary: s) (auto split: sum.splits)

lemma for_loop_single: "for_loop [k] body s = body k s"
  by (cases "body k s") simp_all

lemma for_loop_snoc:
  "for_loop ks body s = Inr s' \<Longrightarrow> for_loop (ks @ [k]) body s = body k s'"
  by (simp add: for_loop_append for_loop_single del: for_loop.simps)

lemma py_index_in_range:
  "0 \<le> i \<Longrightarrow> i < int n \<Longrightarrow> py_index n i = Inr (nat i)"
  by (simp add: py_index_def)

lemma py_index_wrap:
  "- int n \<le> i \<Longrightarrow> i < 0 \<Longrightarrow> py_index n i = Inr (nat (int n + i))"
  by (simp add: py_index_def)

lemma py_index_bound:
  "py_index n i = Inr p \<Longrightarrow> p < n"
  by (auto simp: py_index_def split: if_splits)

lemma py_index_ok:
  "- int n \<le> i \<Longrightarrow> i < int n \<Longrightarrow> \<exists>p. py_index n i = Inr p"
  by (auto simp: py_index_def)

text \<open>The back-fill loop when every index it touches is acceptable to Python.\<close>

lemma setitem_loop_total:
  assumes "\<forall>j\<in>set js. - int (length cs) \<le> k - j \<and> k - j < int (length cs)"
  shows "\<exists>cs'. for_loop js (\<lambda>j c. setitem c (k - j) v) cs = Inr cs'
           \<and> length cs' = length cs
           \<and> (\<forall>i<length cs. cs' ! i = cs ! i \<or> (cs' ! i = v \<and> js \<noteq> []))"
  using assms
proof (induction js arbitrary: cs)
  case Nil
  then show ?case by simp
next
  case (Cons j js)
  from Cons.prems obtain p where p: "py_index (length cs) (k - j) = Inr p"
    using py_index_ok [of "length cs" "k - j"] by auto
  then have pl: "p < length cs" by (rule py_index_bound)
  let ?c1 = "cs[p := v]"
  have s1: "setitem cs (k - j) v = Inr ?c1" by (simp add: setitem_def p)
  have "\<forall>j\<in>set js. - int (length ?c1) \<le> k - j \<and> k - j < int (length ?c1)"
    using Cons.prems by simp
  from Cons.IH [OF this] obtain cs' where
    l: "for_loop js (\<lambda>j c. setitem c (k - j) v) ?c1 = Inr cs'"
    and len: "length cs' = length ?c1"
    and el: "\<forall>i<length ?c1. cs' ! i = ?c1 ! i \<or> (cs' ! i = v \<and> js \<noteq> [])"
    by blast
  have "\<forall>i<length cs. cs' ! i = cs ! i \<or> cs' ! i = v"
  proof (intro allI impI)
    fix i assume "i < length cs"
    with el have "cs' ! i = ?c1 ! i \<or> cs' ! i = v" by auto
    then show "cs' ! i = cs ! i \<or> cs' ! i = v"
      using \<open>i < length cs\<close> by (cases "i = p") auto
  qed
  with l len s1 show ?case by simp
qed


lemma backfill_total:
  assumes "lst \<le> int k + 1" and "k < length cs"
  shows "\<exists>cs'. backfill cs (int k) lst = Inr cs' \<and> length cs' = length cs
           \<and> (\<forall>i<length cs. cs' ! i = cs ! i \<or> (cs' ! i = lst \<and> 1 \<le> lst))"
proof -
  have "\<forall>j\<in>set [1..lst]. - int (length cs) \<le> int k - j \<and> int k - j < int (length cs)"
    using assms by auto
  from setitem_loop_total [OF this, of lst]
  obtain cs' where "for_loop [1..lst] (\<lambda>j c. setitem c (int k - j) lst) cs = Inr cs'"
    "length cs' = length cs"
    "\<forall>i<length cs. cs' ! i = cs ! i \<or> (cs' ! i = lst \<and> [1..lst] \<noteq> [])"
    by blast
  moreover have "[1..lst] \<noteq> [] \<longleftrightarrow> 1 \<le> lst"
    by (simp add: upto.simps)
  ultimately show ?thesis by (auto simp: backfill_def)
qed



lemma sweep1_inv:
  assumes "0 \<le> ws ! 0" and "ws ! 0 \<le> 2" and "1 \<le> k" and "k \<le> length ws"
  shows "\<exists>cs lst. for_loop [1..<k] sweep1_body (ws, ws ! 0) = Inr (cs, lst)
           \<and> length cs = length ws \<and> 0 \<le> lst \<and> lst \<le> int k + 1
           \<and> (\<forall>i<length ws. 0 < ws ! i \<longrightarrow> 0 < cs ! i)"
  using assms(3,4)
proof (induction k rule: dec_induct)
  case base
  show ?case using assms(1,2) by simp
next
  case (step n)
  from step.IH step.prems step.hyps obtain cs lst where
    l: "for_loop [1..<n] sweep1_body (ws, ws ! 0) = Inr (cs, lst)"
    and len: "length cs = length ws" and l0: "0 \<le> lst" and l1: "lst \<le> int n + 1"
    and pos: "\<forall>i<length ws. 0 < ws ! i \<longrightarrow> 0 < cs ! i"
    by auto
  have loop: "for_loop [1..<Suc n] sweep1_body (ws, ws ! 0) = sweep1_body n (cs, lst)"
    using step.hyps for_loop_snoc [OF l, of n] by simp
  show ?case
  proof (cases "0 < cs ! n")
    case True
    then have "sweep1_body n (cs, lst) = Inr (cs[n := lst + 1], lst + 1)" by simp
    moreover have "\<forall>i<length ws. 0 < ws ! i \<longrightarrow> 0 < cs[n := lst + 1] ! i"
    proof (intro allI impI)
      fix i assume i: "i < length ws" and w: "0 < ws ! i"
      with pos have "0 < cs ! i" by simp
      then show "0 < cs[n := lst + 1] ! i"
        using l0 len i by (cases "i = n") simp_all
    qed
    ultimately show ?thesis using loop len l0 l1 by simp
  next
    case False
    from step.prems len have "n < length cs" by simp
    from backfill_total [OF l1 this] obtain cs' where
      b: "backfill cs (int n) lst = Inr cs'" and len': "length cs' = length cs"
      and el: "\<forall>i<length cs. cs' ! i = cs ! i \<or> (cs' ! i = lst \<and> 1 \<le> lst)"
      by blast
    have "sweep1_body n (cs, lst) = Inr (cs', 0)" using False b by simp
    moreover have "\<forall>i<length ws. 0 < ws ! i \<longrightarrow> 0 < cs' ! i"
    proof (intro allI impI)
      fix i assume i: "i < length ws" and w: "0 < ws ! i"
      with pos have "0 < cs ! i" by simp
      moreover from el i len have "cs' ! i = cs ! i \<or> (cs' ! i = lst \<and> 1 \<le> lst)" by simp
      ultimately show "0 < cs' ! i" by auto
    qed
    ultimately show ?thesis using loop len len' by simp
  qed
qed

lemma getitem_0: "xs \<noteq> [] \<Longrightarrow> getitem xs 0 = Inr (xs ! 0)"
  by (simp add: getitem_def py_index_def)

lemma first_sweep_total:
  assumes "ws \<noteq> []" and "0 \<le> ws ! 0" and "ws ! 0 \<le> 2"
  shows "\<exists>cs. first_sweep ws = Inr cs \<and> length cs = length ws
           \<and> (\<forall>i<length ws. 0 < ws ! i \<longrightarrow> 0 < cs ! i)"
proof -
  from assms(1) have "1 \<le> length ws" by (cases ws) auto
  from sweep1_inv [OF assms(2,3) this] obtain cs lst where
    "for_loop [1..<length ws] sweep1_body (ws, ws ! 0) = Inr (cs, lst)"
    "length cs = length ws" "\<forall>i<length ws. 0 < ws ! i \<longrightarrow> 0 < cs ! i"
    by auto
  then show ?thesis using assms(1) by (simp add: first_sweep_def getitem_0)
qed


section \<open>Both sweeps in closed form\<close>





text \<open>Second sweep, position by position.\<close>

lemma sweep2_inv:
  assumes "length days = length counts" and "1 \<le> k" and "k \<le> length counts"
  shows "\<exists>dk. fold (sweep2_body counts m) [1..<k] (days, counts ! 0) = (dk, counts ! (k - 1))
           \<and> length dk = length counts
           \<and> (\<forall>i<length counts. dk ! i =
                 (if Suc i < k then final_label counts days m i
                  else if i < k then partial_label counts days m i
                  else days ! i))"
  using assms(2,3)
proof (induction k rule: dec_induct)
  case base
  show ?case by (simp add: assms(1) partial_label_def)
next
  case (step n)
  from step.IH step.prems step.hyps obtain dk where
    f: "fold (sweep2_body counts m) [1..<n] (days, counts ! 0) = (dk, counts ! (n - 1))"
    and len: "length dk = length counts"
    and el: "\<forall>i<length counts. dk ! i =
                 (if Suc i < n then final_label counts days m i
                  else if i < n then partial_label counts days m i
                  else days ! i)"
    by auto
  from step.prems have nl: "n < length counts" by simp
  from step.hyps obtain p where p: "n = Suc p" by (cases n) auto
  define v where "v = counts ! n"
  define lst where "lst = counts ! p"
  define dn where "dn =
      (if v = 0 then (if lst \<ge> m then dk[p := ''last_day''] else dk)
       else if v \<ge> m then (if lst = 0 then dk[p := ''first_day''] else dk)[n := ''middle_days'']
       else dk)"
  have f': "fold (sweep2_body counts m) [1..<Suc n] (days, counts ! 0) = (dn, counts ! (Suc n - 1))"
    using step.hyps f by (simp add: sweep2_body_def Let_def dn_def v_def lst_def p)
  have lenn: "length dn = length counts" by (simp add: dn_def len)
  have pl: "p < length counts" using p nl by simp
  have dkp: "dk ! p = partial_label counts days m p" using el pl p by simp
  have dkn: "dk ! n = days ! n" using el nl by simp
  have "\<forall>i<length counts. dn ! i =
                 (if Suc i < Suc n then final_label counts days m i
                  else if i < Suc n then partial_label counts days m i
                  else days ! i)"
  proof (intro allI impI)
    fix i assume i: "i < length counts"
    consider (before) "Suc i < n" | (prev) "i = p" | (cur) "i = n" | (after) "n < i"
      using p by force
    then show "dn ! i =
                 (if Suc i < Suc n then final_label counts days m i
                  else if i < Suc n then partial_label counts days m i
                  else days ! i)"
    proof cases
      case before
      then have "i \<noteq> p" "i \<noteq> n" using p by auto
      then have "dn ! i = dk ! i" by (simp add: dn_def)
      with el i before show ?thesis by simp
    next
      case prev
      have "dn ! p = final_label counts days m p"
        using pl nl dkp len
        unfolding p by (simp add: dn_def final_label_def v_def lst_def p)
      with prev p show ?thesis by simp
    next
      case cur
      have "dn ! n = partial_label counts days m n"
        using nl dkn len step.hyps
        by (simp add: dn_def partial_label_def v_def p)
      with cur show ?thesis by simp
    next
      case after
      then have "i \<noteq> p" "i \<noteq> n" using p by auto
      then have "dn ! i = dk ! i" by (simp add: dn_def)
      with el i after show ?thesis by simp
    qed
  qed
  with f' lenn show ?case by blast
qed

lemma second_sweep_nth:
  assumes "counts \<noteq> []" and "length days = length counts"
  shows "second_sweep counts days m = Inr (map (final_label counts days m) [0..<length counts])"
proof -
  from assms(1) have n: "1 \<le> length counts" "length counts \<le> length counts"
    by (cases counts, auto)
  from sweep2_inv [OF assms(2) n, of m] obtain dk where
    f: "fold (sweep2_body counts m) [1..<length counts] (days, counts ! 0) = (dk, counts ! (length counts - 1))"
    and len: "length dk = length counts"
    and el: "\<forall>i<length counts. dk ! i =
                 (if Suc i < length counts then final_label counts days m i
                  else if i < length counts then partial_label counts days m i
                  else days ! i)"
    by blast
  have "dk = map (final_label counts days m) [0..<length counts]"
  proof (rule nth_equalityI)
    show "length dk = length (map (final_label counts days m) [0..<length counts])"
      by (simp add: len)
  next
    fix i assume "i < length dk"
    then have i: "i < length counts" by (simp add: len)
    show "dk ! i = map (final_label counts days m) [0..<length counts] ! i"
      using el i by (auto simp: final_label_def)
  qed
  with f show ?thesis using assms(1) by (simp add: second_sweep_def getitem_0)
qed

section \<open>Properties of the labeler\<close>

lemma weights_bounds:
  assumes "flags01 column" and "i < length column"
  shows "0 \<le> weights column ! i \<and> weights column ! i \<le> 2"
proof -
  obtain d x where dx: "column ! i = (d, x)" by (cases "column ! i")
  from assms have "column ! i \<in> set column" by simp
  with assms(1) dx have "fillna 0 x = 0 \<or> fillna 0 x = 1"
    by (auto simp: flags01_def list_all_iff)
  then show ?thesis
    using assms(2) by (auto simp: weights_def dx weekend_bump_def)
qed

lemma length_weights [simp]: "length (weights column) = length column"
  by (simp add: weights_def)

lemma length_day_labels [simp]: "length (day_labels column) = length column"
  by (simp add: day_labels_def)

lemma day_label_cases:
  "day_label wd = ''Sunday'' \<or> day_label wd = ''Saturday'' \<or> day_label wd = ''Friday'' \<or> day_label wd = ''others''"
  by (simp add: day_label_def)

lemma day_labels_not_marks:
  assumes "i < length column"
  shows "day_labels column ! i \<noteq> ''last_day''" and "day_labels column ! i \<noteq> ''first_day''"
    and "day_labels column ! i \<noteq> ''middle_days''"
proof -
  obtain d x where dx: "column ! i = (d, x)" by (cases "column ! i")
  have e: "day_labels column ! i = day_label (weekday d)"
    using assms by (simp add: day_labels_def dx)
  show "day_labels column ! i \<noteq> ''last_day''" "day_labels column ! i \<noteq> ''first_day''"
    "day_labels column ! i \<noteq> ''middle_days''"
    using day_label_cases [of "weekday d"] by (auto simp: e)
qed

lemma final_label_last_day:
  assumes "days ! i \<noteq> ''last_day''" and "final_label cs days m i = ''last_day''"
  shows "Suc i < length cs \<and> cs ! Suc i = 0 \<and> m \<le> cs ! i"
  using assms by (auto simp: final_label_def partial_label_def split: if_splits)



text \<open>What a call of the labeler on a well-formed column returns.\<close>

lemma categorize_returns:
  assumes "flags01 column" and "column \<noteq> []"
  shows "\<exists>cs. first_sweep (weights column) = Inr cs \<and> length cs = length column
           \<and> (\<forall>i<length column. 0 < weights column ! i \<longrightarrow> 0 < cs ! i)
           \<and> categorize column m = Inr (map (final_label cs (day_labels column) m) [0..<length column])"
proof -
  have ne: "weights column \<noteq> []" using assms(2) by (simp add: weights_def)
  from assms have b: "0 \<le> weights column ! 0" "weights column ! 0 \<le> 2"
    using weights_bounds [of column 0] by auto
  from first_sweep_total [OF ne b] obtain cs where
    fs: "first_sweep (weights column) = Inr cs" and len: "length cs = length column"
    and pos: "\<forall>i<length column. 0 < weights column ! i \<longrightarrow> 0 < cs ! i"
    by auto
  from len assms(2) have cne: "cs \<noteq> []" by auto
  have "second_sweep cs (day_labels column) m
          = Inr (map (final_label cs (day_labels column) m) [0..<length cs])"
    by (rule second_sweep_nth [OF cne]) (simp add: len)
  with fs len pos show ?thesis by (simp add: categorize_def)
qed

text \<open>
  Claim C2. For every propagated weight sequence of length at least 1, labels of the
  same length and every \<open>min_days \<ge> 1\<close>, the second sweep of \<open>_categorize\<close> returns exactly the labels of
  the specification's rule (\<open>spec_boundary_labeling\<close>): \<open>last_day\<close> and
  \<open>first_day\<close> are written one index behind the triggering day, \<open>middle_days\<close> on
  the day itself, over whatever default label stood there.
\<close>

theorem second_sweep_matches_spec_rule:
  assumes "1 \<le> min_days" and "counts \<noteq> []" and "length days = length counts"
  shows "second_sweep counts days min_days = Inr (spec_boundary_labeling counts days min_days)"
proof -
  have "sweep2_body counts min_days = spec_label_step counts min_days"
  proof (intro ext)
    fix k and s :: "string list \<times> int"
    obtain ds lst where s: "s = (ds, lst)" by (cases s)
    show "sweep2_body counts min_days k s = spec_label_step counts min_days k s"
      using assms(1) by (auto simp: sweep2_body_def spec_label_step_def s Let_def)
  qed
  then show ?thesis
    using assms(2) by (simp add: second_sweep_def spec_boundary_labeling_def getitem_0)
qed

theorem second_sweep_matches_spec_rule_witness:
  "(1::int) \<le> 3 \<and> [0, 3, 3, 3, 0::int] \<noteq> []
   \<and> length [''others'', ''others'', ''others'', ''others'', ''Friday''] = length [0, 3, 3, 3, 0::int]
   \<and> second_sweep [0, 3, 3, 3, 0] [''others'', ''others'', ''others'', ''others'', ''Friday''] 3
       = Inr (spec_boundary_labeling [0, 3, 3, 3, 0] [''others'', ''others'', ''others'', ''others'', ''Friday''] 3)
   \<and> spec_boundary_labeling [0, 3, 3, 3, 0] [''others'', ''others'', ''others'', ''others'', ''Friday''] 3
       = [''first_day'', ''middle_days'', ''middle_days'', ''last_day'', ''Friday'']"
proof -
  have a: "(1::int) \<le> 3" and b: "[0, 3, 3, 3, 0::int] \<noteq> []" by simp_all
  have d: "length [''others'', ''others'', ''others'', ''others'', ''Friday''] = length [0, 3, 3, 3, 0::int]"
    by simp
  have c: "spec_boundary_labeling [0, 3, 3, 3, 0] [''others'', ''others'', ''others'', ''others'', ''Friday''] 3
       = [''first_day'', ''middle_days'', ''middle_days'', ''last_day'', ''Friday'']"
    by code_simp
  show ?thesis
    using a b c second_sweep_matches_spec_rule [OF a b d] by simp
qed

lemma weekday_shift:
  assumes "weekday d = 0"
  shows "weekday (d + 1) = 1" "weekday (d + 2) = 2" "weekday (d + 3) = 3"
    "weekday (d + 4) = 4" "weekday (d + 5) = 5" "weekday (d + 6) = 6"
  using assms unfolding weekday_def by presburger+

text \<open>
  Claim C3 (as amended). With \<open>min_days = 3\<close> and the flags \<open>[0,0,1,1,1,0,0]\<close> over seven
  consecutive days starting on a Monday, the labeler returns
  \<open>[others, others, others, others, middle_days, middle_days, middle_days]\<close>: the weekend
  that follows the three holidays extends their stretch to the end of the range, the
  stretch stays open, and only the days whose ascending count has reached 3 are marked.
\<close>

theorem scenario_a_labels:
  assumes "weekday d = 0"
  shows "categorize (scenario_a d) 3 =
           Inr [''others'', ''others'', ''others'', ''others'',
                ''middle_days'', ''middle_days'', ''middle_days'']"
proof -
  have w: "weights (scenario_a d) = [0, 0, 1, 1, 1, 1, 1]"
    using assms weekday_shift [OF assms]
    by (simp add: weights_def scenario_a_def weekend_bump_def fillna_def)
  have l: "day_labels (scenario_a d) =
      [''others'', ''others'', ''others'', ''others'', ''Friday'', ''Saturday'', ''Sunday'']"
    using assms weekday_shift [OF assms]
    by (simp add: day_labels_def scenario_a_def day_label_def)
  have f: "first_sweep [0, 0, 1, 1, 1, 1, 1] = Inr [0, 0, 1, 2, 3, 4, 5]"
    by code_simp
  have s: "second_sweep [0, 0, 1, 2, 3, 4, 5]
      [''others'', ''others'', ''others'', ''others'', ''Friday'', ''Saturday'', ''Sunday''] 3
      = Inr [''others'', ''others'', ''others'', ''others'',
                ''middle_days'', ''middle_days'', ''middle_days'']"
    by code_simp
  show ?thesis by (simp add: categorize_def w l f s)
qed

theorem scenario_a_labels_witness:
  "weekday 738522 = 0 \<and>
   categorize (scenario_a 738522) 3 =
           Inr [''others'', ''others'', ''others'', ''others'',
                ''middle_days'', ''middle_days'', ''middle_days'']"
proof -
  have a: "weekday 738522 = 0" by (simp add: weekday_def)
  show ?thesis using a scenario_a_labels [OF a] by simp
qed

text \<open>
  Claim C3 as stated fails: the label sequence
  \<open>[other, other, first_day, middle_days, last_day, saturday, sunday]\<close> is not what the
  labeler returns for Scenario A.
\<close>

theorem scenario_a_spec_labels_counterexample:
  "categorize (scenario_a 738522) 3 \<noteq>
     Inr [''others'', ''others'', ''first_day'', ''middle_days'', ''last_day'', ''Saturday'', ''Sunday'']"
  by code_simp

text \<open>
  Claim C4. On every 0/1 column of length at least 1, and for every threshold, the
  labeler returns, the final day is not labeled \<open>last_day\<close>, and no day of a stretch of
  nonzero weights that reaches the final day (every weight from that day to the end is
  nonzero) is labeled \<open>last_day\<close>.
\<close>

theorem trailing_run_never_last_day:
  assumes "flags01 column" and "column \<noteq> []"
  shows "\<exists>days. categorize column min_days = Inr days \<and> length days = length column
           \<and> days ! (length column - 1) \<noteq> ''last_day''
           \<and> (\<forall>i<length column. list_all (\<lambda>w. 0 < w) (drop i (weights column))
                 \<longrightarrow> days ! i \<noteq> ''last_day'')"
proof -
  from categorize_returns [OF assms, of min_days] obtain cs where
    len: "length cs = length column"
    and pos: "\<forall>i<length column. 0 < weights column ! i \<longrightarrow> 0 < cs ! i"
    and cat: "categorize column min_days
                = Inr (map (final_label cs (day_labels column) min_days) [0..<length column])"
    by blast
  let ?days = "map (final_label cs (day_labels column) min_days) [0..<length column]"
  have n: "length column - 1 < length column" using assms(2) by (cases column) auto
  have fin: "?days ! (length column - 1) \<noteq> ''last_day''"
  proof -
    define j where "j = length column - 1"
    have j: "j < length column" "\<not> Suc j < length cs" using n len by (simp_all add: j_def)
    have "final_label cs (day_labels column) min_days j \<noteq> ''last_day''"
      using final_label_last_day [OF day_labels_not_marks(1) [OF j(1)]] j(2) by blast
    then show ?thesis using j(1) by (simp add: j_def)
  qed
  have run: "\<forall>i<length column. list_all (\<lambda>w. 0 < w) (drop i (weights column))
                 \<longrightarrow> ?days ! i \<noteq> ''last_day''"
  proof (intro allI impI)
    fix i assume i: "i < length column"
      and all: "list_all (\<lambda>w. 0 < w) (drop i (weights column))"
    have nz: "Suc i < length column \<Longrightarrow> cs ! Suc i \<noteq> 0"
    proof -
      assume s: "Suc i < length column"
      then have "drop i (weights column) ! 1 = weights column ! Suc i" by simp
      moreover have "1 < length (drop i (weights column))" using s by simp
      ultimately have "0 < weights column ! Suc i"
        using all by (metis list_all_length)
      with pos s show "cs ! Suc i \<noteq> 0" by auto
    qed
    have "final_label cs (day_labels column) min_days i \<noteq> ''last_day''"
      using final_label_last_day [OF day_labels_not_marks(1) [OF i]] nz len by force
    then show "?days ! i \<noteq> ''last_day''" using i by simp
  qed
  from cat fin run show ?thesis by simp
qed

theorem trailing_run_never_last_day_witness:
  "flags01 (scenario_a 738522) \<and> scenario_a 738522 \<noteq> []
   \<and> list_all (\<lambda>w. 0 < w) (drop 2 (weights (scenario_a 738522)))
   \<and> (\<exists>days. categorize (scenario_a 738522) 3 = Inr days
          \<and> days ! 6 \<noteq> ''last_day'' \<and> days ! 2 \<noteq> ''last_day'')"
proof -
  have a: "flags01 (scenario_a 738522)"
    by (simp add: flags01_def scenario_a_def fillna_def)
  have b: "scenario_a 738522 \<noteq> []" by (simp add: scenario_a_def)
  have c: "list_all (\<lambda>w. 0 < w) (drop 2 (weights (scenario_a 738522)))"
    by (simp add: weights_def scenario_a_def weekday_def weekend_bump_def fillna_def)
  have l: "length (scenario_a 738522) = 7" by (simp add: scenario_a_def)
  from trailing_run_never_last_day [OF a b, of 3] obtain days where
    d: "categorize (scenario_a 738522) 3 = Inr days"
      "days ! (length (scenario_a 738522) - 1) \<noteq> ''last_day''"
      "\<forall>i<length (scenario_a 738522).
          list_all (\<lambda>w. 0 < w) (drop i (weights (scenario_a 738522))) \<longrightarrow> days ! i \<noteq> ''last_day''"
    by blast
  from d(2) l have e: "days ! 6 \<noteq> ''last_day''" by simp
  from l have "2 < length (scenario_a 738522)" by simp
  with d(3) c have "days ! 2 \<noteq> ''last_day''" by blast
  with a b c d(1) e show ?thesis by blast
qed




section \<open>The first sweep and the start of the range\<close>

text \<open>
  Claim C1 at the input that breaks it: a two-day column whose first day is a holiday
  falling on a Sunday. The weights are \<open>[2, 0]\<close>; the stretch has length 1, but the
  counter starts at the weight 2, the back-fill writes \<open>counts[0]\<close> and \<open>counts[-1]\<close>,
  and both days end up holding 2, where the run-by-run description gives \<open>[1, 0]\<close>.
\<close>

theorem first_sweep_sunday_holiday:
  "weights sunday_holiday = [2, 0]
   \<and> first_sweep (weights sunday_holiday) = Inr [2, 2]
   \<and> spec_run_fill (weights sunday_holiday) = [1, 0]"
proof -
  have w: "weights sunday_holiday = [2, 0]"
    by (simp add: weights_def sunday_holiday_def weekday_def weekend_bump_def fillna_def)
  have f: "first_sweep [2, 0] = Inr [2, 2]" by code_simp
  have r: "spec_run_fill [2, 0] = [1, 0]" by code_simp
  show ?thesis by (simp add: w f r)
qed

text \<open>
  A stretch that starts at index 0 with weight 2: while it lasts, the counter is one
  ahead of the number of days passed, and nothing beyond the loop index has changed.
\<close>

lemma sweep1_leading_run:
  assumes "ws ! 0 = 2" and "i < length ws"
    and "list_all (\<lambda>w. 0 < w) (take (i - 1) (drop 1 ws))"
    and "1 \<le> k" and "k \<le> i"
  shows "\<exists>cs. for_loop [1..<k] sweep1_body (ws, ws ! 0) = Inr (cs, int k + 1)
           \<and> length cs = length ws \<and> (\<forall>j. k \<le> j \<and> j < length ws \<longrightarrow> cs ! j = ws ! j)"
  using assms(4,5)
proof (induction k rule: dec_induct)
  case base
  show ?case using assms(1) by simp
next
  case (step n)
  from step.IH step.prems step.hyps obtain cs where
    l: "for_loop [1..<n] sweep1_body (ws, ws ! 0) = Inr (cs, int n + 1)"
    and len: "length cs = length ws"
    and same: "\<forall>j. n \<le> j \<and> j < length ws \<longrightarrow> cs ! j = ws ! j"
    by auto
  from step.prems assms(2) have nl: "n < length ws" by simp
  obtain p where p: "n = Suc p" using step.hyps by (cases n) auto
  have "p < length (take (i - 1) (drop 1 ws))" using step.prems nl p assms(2) by simp
  moreover have "take (i - 1) (drop 1 ws) ! p = ws ! n"
    using step.prems nl p by simp
  ultimately have "0 < ws ! n" using assms(3) by (metis list_all_length)
  with same nl have "0 < cs ! n" by simp
  then have "sweep1_body n (cs, int n + 1) = Inr (cs[n := int n + 1 + 1], int n + 1 + 1)"
    by simp
  moreover have "for_loop [1..<Suc n] sweep1_body (ws, ws ! 0) = sweep1_body n (cs, int n + 1)"
    using step.hyps for_loop_snoc [OF l, of n] by simp
  moreover have "\<forall>j. Suc n \<le> j \<and> j < length ws \<longrightarrow> cs[n := int n + 1 + 1] ! j = ws ! j"
    using same by simp
  ultimately show ?case using len by simp
qed

text \<open>
  Claim C9. There are inputs on which the back-fill writes out of range. Whenever the
  first weight is 2 (a holiday on a Saturday or Sunday at the start of the range) and
  the stretch that starts at index 0 is closed by a non-positive weight at index \<open>i\<close>,
  the loop reaches \<open>i\<close> with the counter at \<open>i + 1\<close>, one more than the \<open>i\<close> days
  of the stretch; the last index of the back-fill, \<open>i - (i + 1)\<close>, is negative; Python
  resolves it to the last position of the array; and the iteration ends with the last
  element overwritten by the counter.
\<close>

theorem backfill_negative_index:
  assumes "ws ! 0 = 2" and "1 \<le> i" and "i < length ws"
    and "list_all (\<lambda>w. 0 < w) (take (i - 1) (drop 1 ws))" and "ws ! i \<le> 0"
  shows "\<exists>cs cs'. for_loop [1..<i] sweep1_body (ws, ws ! 0) = Inr (cs, int i + 1)
           \<and> int i - (int i + 1) < 0
           \<and> py_index (length cs) (int i - (int i + 1)) = Inr (length ws - 1)
           \<and> sweep1_body i (cs, int i + 1) = Inr (cs', 0)
           \<and> cs' ! (length ws - 1) = int i + 1"
proof -
  from sweep1_leading_run [OF assms(1,3,4,2)] obtain cs where
    l: "for_loop [1..<i] sweep1_body (ws, ws ! 0) = Inr (cs, int i + 1)"
    and len: "length cs = length ws"
    and same: "\<forall>j. i \<le> j \<and> j < length ws \<longrightarrow> cs ! j = ws ! j"
    by auto
  define v where "v = int i + 1"
  define n where "n = length ws"
  have n: "0 < n" "i < n" using assms(3) by (auto simp: n_def)
  have "\<forall>j\<in>set [1..int i]. - int (length cs) \<le> int i - j \<and> int i - j < int (length cs)"
    using len n by (auto simp: n_def)
  from setitem_loop_total [OF this, of v] obtain cs1 where
    f1: "for_loop [1..int i] (\<lambda>j c. setitem c (int i - j) v) cs = Inr cs1"
    and len1: "length cs1 = length cs"
    by blast
  have idx: "py_index n (int i - v) = Inr (n - 1)"
    using n by (simp add: py_index_def v_def)
  have up: "[1..v] = [1..int i] @ [v]"
    using upto_rec2 [of 1 v] by (simp add: v_def)
  have "backfill cs (int i) v = setitem cs1 (int i - v) v"
    unfolding backfill_def up using for_loop_snoc [OF f1, of v] by simp
  also have "\<dots> = Inr (cs1[n - 1 := v])"
    using idx len1 len by (simp add: setitem_def n_def)
  finally have b: "backfill cs (int i) v = Inr (cs1[n - 1 := v])" .
  have "\<not> 0 < cs ! i" using same assms(3,5) by simp
  with b have s: "sweep1_body i (cs, v) = Inr (cs1[n - 1 := v], 0)" by simp
  have e: "cs1[n - 1 := v] ! (n - 1) = v" using n len1 len by (simp add: n_def)
  have neg: "int i - v < 0" by (simp add: v_def)
  from l neg idx s e len show ?thesis
    unfolding v_def n_def by auto
qed

theorem backfill_negative_index_witness:
  "flags01 saturday_holiday \<and> weights saturday_holiday = [2, 1, 0]
   \<and> weights saturday_holiday ! 0 = 2 \<and> (1::nat) \<le> 2 \<and> 2 < length (weights saturday_holiday)
   \<and> list_all (\<lambda>w. 0 < w) (take (2 - 1) (drop 1 (weights saturday_holiday)))
   \<and> weights saturday_holiday ! 2 \<le> 0
   \<and> (\<exists>cs cs'. for_loop [1..<2] sweep1_body (weights saturday_holiday, 2) = Inr (cs, 3)
          \<and> py_index (length cs) (2 - 3) = Inr 2
          \<and> sweep1_body 2 (cs, 3) = Inr (cs', 0) \<and> cs' ! 2 = 3)
   \<and> first_sweep (weights saturday_holiday) = Inr [3, 3, 3]"
proof -
  have a: "flags01 saturday_holiday"
    by (simp add: flags01_def saturday_holiday_def fillna_def)
  have w: "weights saturday_holiday = [2, 1, 0]"
    by (simp add: weights_def saturday_holiday_def weekday_def weekend_bump_def fillna_def)
  have h: "[2, 1, 0::int] ! 0 = 2" "(1::nat) \<le> 2" "2 < length [2, 1, 0::int]"
    "list_all (\<lambda>w. 0 < w) (take (2 - 1) (drop 1 [2, 1, 0::int]))" "[2, 1, 0::int] ! 2 \<le> 0"
    by simp_all
  have f: "first_sweep [2, 1, 0] = Inr [3, 3, 3]" by code_simp
  from backfill_negative_index [OF h] have
    "\<exists>cs cs'. for_loop [1..<2] sweep1_body ([2, 1, 0], 2) = Inr (cs, 3)
          \<and> py_index (length cs) (2 - 3) = Inr 2
          \<and> sweep1_body 2 (cs, 3) = Inr (cs', 0) \<and> cs' ! 2 = 3"
    by (simp del: sweep1_body.simps add: numeral_2_eq_2)
  with a h f show ?thesis unfolding w by (simp del: sweep1_body.simps)
qed



section \<open>Counting the labeled days\<close>









section \<open>Assembling the calendar\<close>








lemma fillna_Some [simp]: "fillna d (Some v) = v"
  by (simp add: fillna_def)












section \<open>Properties of the calendar\<close>












end
